theory Spec2Isabelle
  imports Main "HOL-Library.Sublist"
begin

section \<open>Python string primitives used by npplib/insert.py\<close>

text \<open>
  The plugin runs inside Notepad++'s Python Script host, whose strings are byte strings.
  The whitespace of \<open>str.split()\<close>, \<open>str.strip()\<close>, \<open>str.lstrip()\<close> and
  \<open>str.rstrip()\<close> (called without argument) is space, tab, line feed, vertical tab,
  form feed and carriage return.
\<close>

definition CR :: char where
  "CR = CHR 0x0D"

definition LF :: char where
  "LF = CHR 0x0A"

definition is_space :: "char \<Rightarrow> bool" where
  "is_space c = (c = CHR '' '' \<or> c = CHR 0x09 \<or> c = CHR 0x0A \<or> c = CHR 0x0B
                 \<or> c = CHR 0x0C \<or> c = CHR 0x0D)"

definition lstrip :: "string \<Rightarrow> string" where
  "lstrip s = dropWhile is_space s"

definition rstrip :: "string \<Rightarrow> string" where
  "rstrip s = rev (dropWhile is_space (rev s))"

definition strip :: "string \<Rightarrow> string" where
  "strip s = rstrip (lstrip s)"

definition startswith :: "string \<Rightarrow> string \<Rightarrow> bool" where
  "startswith s p = prefix p s"

definition endswith :: "string \<Rightarrow> string \<Rightarrow> bool" where
  "endswith s p = suffix p s"

text \<open>\<open>line.split()\<close>: the maximal runs of non-whitespace characters, in order.\<close>

fun split_ws :: "string \<Rightarrow> string list" where
  "split_ws [] = []"
| "split_ws (c # cs) =
     (if is_space c then split_ws cs
      else (case cs of
              [] \<Rightarrow> [[c]]
            | d # _ \<Rightarrow>
                if is_space d then [c] # split_ws cs
                else (case split_ws cs of
                        [] \<Rightarrow> [[c]]
                      | w # ws \<Rightarrow> (c # w) # ws)))"

text \<open>\<open>s.index(sub)\<close>: the lowest index where \<open>sub\<close> occurs, \<open>None\<close> where Python
  raises ValueError.\<close>

fun str_index :: "string \<Rightarrow> string \<Rightarrow> nat option" where
  "str_index [] sub = (if sub = [] then Some 0 else None)"
| "str_index (c # cs) sub =
     (if prefix sub (c # cs) then Some 0
      else map_option Suc (str_index cs sub))"

text \<open>\<open>s.lower()\<close> on a byte string: the letters A to Z are moved to a to z.\<close>

definition lower_char :: "char \<Rightarrow> char" where
  "lower_char c =
     (if (65::nat) \<le> of_char c \<and> of_char c \<le> (90::nat)
      then char_of (of_char c + (32::nat)) else c)"

definition lower :: "string \<Rightarrow> string" where
  "lower s = map lower_char s"

text \<open>\<open>s.rfind(c)\<close> for a single character: the highest index, \<open>-1\<close> when absent.\<close>

fun rfind_char :: "string \<Rightarrow> char \<Rightarrow> int" where
  "rfind_char [] c = -1"
| "rfind_char (x # xs) c =
     (if rfind_char xs c \<noteq> -1 then rfind_char xs c + 1
      else if x = c then 0 else -1)"

text \<open>
  \<open>os.path.splitext(p)[1]\<close> as the Windows path module computes it: the extension
  starts at the last dot, provided that dot comes after the last separator (backslash or
  slash) and some character between the separator and the dot is not a dot.
\<close>

definition splitext_ext :: "string \<Rightarrow> string" where
  "splitext_ext p =
     (let sepIndex = max (rfind_char p (CHR 0x5C)) (rfind_char p (CHR ''/''));
          dotIndex = rfind_char p (CHR ''.'')
      in if dotIndex > sepIndex
            \<and> (\<exists>c \<in> set (take (nat (dotIndex - (sepIndex + 1))) (drop (nat (sepIndex + 1)) p)).
                   c \<noteq> CHR ''.'')
         then drop (nat dotIndex) p else [])"

section \<open>The host editor\<close>

text \<open>
  The editor and the notepad objects belong to the host. What the handlers read from the
  host is a record of the host's answers; what they write is one of four commands. The
  effect of a command on later answers is the host's business: it is a parameter
  \<open>H\<close> of every handler, and each command issued is appended to a log.
\<close>

record editor =
  getCurrentFilename :: string
  getCurrentPos :: int
  lineFromPosition :: "int \<Rightarrow> int"
  getLine :: "int \<Rightarrow> string"
  getLineEndPosition :: "int \<Rightarrow> int"
  getStyleAt :: "int \<Rightarrow> int"

datatype command =
    ReplaceLine int string
  | AddText string
  | LineEnd
  | CharLeft

type_synonym host = "command \<Rightarrow> editor \<Rightarrow> editor"

type_synonym state = "editor \<times> command list"

definition issue :: "host \<Rightarrow> command \<Rightarrow> state \<Rightarrow> state" where
  "issue H c s = (H c (fst s), snd s @ [c])"

datatype error = KeyError | IndexError | ValueError | TypeError | AttributeError

text \<open>A handler returns the state it leaves, or the exception raised together with the
  state in which it was raised.\<close>

type_synonym outcome = "(error \<times> state) + state"

section \<open>The language map\<close>

record lang =
  file_extension :: string
  comment_str :: string
  style_comment :: int
  comment_limit :: int
  style_docstring :: "int option"
  docstring_limit :: "int option"
  docstring_str :: "string option"

definition lang_py :: lang where
  "lang_py = \<lparr> file_extension = ''.py'', comment_str = ''#'', style_comment = 1,
       comment_limit = 72, style_docstring = Some 7, docstring_limit = Some 72,
       docstring_str = Some [] \<rparr>"

definition lang_c :: lang where
  "lang_c = \<lparr> file_extension = ''.c'', comment_str = ''//'', style_comment = 2,
       comment_limit = 72, style_docstring = None, docstring_limit = None,
       docstring_str = None \<rparr>"

definition lang_map :: "string \<rightharpoonup> lang" where
  "lang_map = map_of [(''.py'', lang_py), (''.c'', lang_c)]"

section \<open>The comment test\<close>

definition is_comment :: "string \<Rightarrow> string \<Rightarrow> bool" where
  "is_comment cs line = startswith (lstrip line) cs"

definition are_comments :: "string \<Rightarrow> string list \<Rightarrow> bool" where
  "are_comments cs lines = list_all (is_comment cs) lines"

section \<open>The re-wrapper: \<open>_on_CHARADDED_wrap\<close>\<close>

text \<open>
  The context-specific variables: the column limit and the string a line starts with.
  \<open>Inr None\<close> is the plain \<open>return\<close>; a key missing from the language mapping
  raises KeyError.
\<close>

definition wrap_context ::
  "lang \<Rightarrow> string \<Rightarrow> editor \<Rightarrow> int \<Rightarrow> string \<Rightarrow> error + (int \<times> string) option" where
  "wrap_context l_map ty ed pos line =
     (if ty = ''docstring'' then
        (case style_docstring l_map of
           None \<Rightarrow> Inl KeyError
         | Some sd \<Rightarrow>
             if getStyleAt ed pos \<noteq> sd then Inr None
             else (case docstring_limit l_map of
                     None \<Rightarrow> Inl KeyError
                   | Some dl \<Rightarrow>
                       (case docstring_str l_map of
                          None \<Rightarrow> Inl KeyError
                        | Some ds \<Rightarrow> Inr (Some (dl, ds)))))
      else if ty = ''comment'' then
        (if \<not> is_comment (comment_str l_map) line then Inr None
         else Inr (Some (comment_limit l_map, comment_str l_map)))
      else Inr None)"

text \<open>\<open>white_space = line[:line.index(words[0][0])]\<close>: \<open>words[0]\<close> raises IndexError on
  an empty list, \<open>index\<close> raises ValueError when the character is absent.\<close>

definition leading_white_space :: "string \<Rightarrow> string list \<Rightarrow> error + string" where
  "leading_white_space line words =
     (case words of
        [] \<Rightarrow> Inl IndexError
      | w # _ \<Rightarrow>
          (case w of
             [] \<Rightarrow> Inl IndexError
           | c # _ \<Rightarrow>
               (case str_index line [c] of
                  None \<Rightarrow> Inl ValueError
                | Some i \<Rightarrow> Inr (take i line))))"

text \<open>
  The steps on the word list: a first word equal to \<open>str_start\<close> is deleted; a list of
  at most one word is given up (\<open>None\<close>); a first word that starts with a non-empty
  \<open>str_start\<close> loses that prefix.
\<close>

definition drop_marker :: "string \<Rightarrow> string list \<Rightarrow> string list" where
  "drop_marker str_start words =
     (case words of
        [] \<Rightarrow> []
      | w # ws \<Rightarrow> if w = str_start then ws else w # ws)"

definition strip_marker :: "string \<Rightarrow> string list \<Rightarrow> string list" where
  "strip_marker str_start words =
     (case words of
        [] \<Rightarrow> []
      | w # ws \<Rightarrow>
          if str_start \<noteq> [] \<and> startswith w str_start
          then drop (length str_start) w # ws else w # ws)"

definition wrap_words :: "string \<Rightarrow> string list \<Rightarrow> string list option" where
  "wrap_words str_start words =
     (let words1 = drop_marker str_start words
      in if words1 = [] \<or> length words1 \<le> 1 then None
         else Some (strip_marker str_start words1))"

definition line_start_of :: "string \<Rightarrow> string \<Rightarrow> string" where
  "line_start_of white_space str_start =
     (if str_start \<noteq> [] then white_space @ str_start @ '' '' else white_space)"

text \<open>
  The loop over the remaining words. \<open>new_words\<close> is a list of pieces; a piece is
  \<open>None\<close> where the source stores the \<open>None\<close> that \<open>next(it, None)\<close> returns on
  an exhausted iterator. The branch \<open>word_count == 1\<close> takes the following word from
  the same iterator, so the loop goes on after that word.
\<close>

fun wrap_loop ::
  "int \<Rightarrow> string \<Rightarrow> string list \<Rightarrow> string option list \<Rightarrow> int \<Rightarrow> int \<Rightarrow> string option list" where
  "wrap_loop lim line_start [] new_words line_len word_count = new_words"
| "wrap_loop lim line_start (word # it) new_words line_len word_count =
     (if line_len + (int (length word) + 1) > lim then
        (if word_count + 1 = 1 then
           (case it of
              [] \<Rightarrow>
                wrap_loop lim line_start []
                  (new_words @ [Some word, Some [CR, LF], Some line_start, None])
                  (int (length line_start) + int (length word)) 1
            | nxt # it' \<Rightarrow>
                wrap_loop lim line_start it'
                  (new_words @ [Some word, Some [CR, LF], Some line_start, Some nxt])
                  (int (length line_start) + int (length word)) 1)
         else
           wrap_loop lim line_start it
             (new_words @ [Some [CR, LF], Some line_start, Some word])
             (int (length line_start) + int (length word)) 1)
      else
        wrap_loop lim line_start it (new_words @ [Some '' '', Some word])
          (line_len + (int (length word) + 1)) (word_count + 1))"

text \<open>
  From the length test to the end of the loop: \<open>Inr None\<close> is a \<open>return\<close> before
  anything is built, \<open>Inr (Some new_words)\<close> the pieces of the new paragraph.
  \<open>len(new_words[1])\<close> raises TypeError when the iterator had no first word.
\<close>

definition wrap_block :: "int \<Rightarrow> string \<Rightarrow> string \<Rightarrow> error + string option list option" where
  "wrap_block line_len_limit str_start line =
     (if int (length (rstrip line)) \<le> line_len_limit then Inr None
      else
        (case leading_white_space line (split_ws line) of
           Inl e \<Rightarrow> Inl e
         | Inr white_space \<Rightarrow>
             if split_ws line = [] then Inr None
             else
               (case wrap_words str_start (split_ws line) of
                  None \<Rightarrow> Inr None
                | Some words \<Rightarrow>
                    (case words of
                       [] \<Rightarrow> Inl TypeError
                     | w # it \<Rightarrow>
                         Inr (Some
                           (wrap_loop line_len_limit (line_start_of white_space str_start) it
                              [Some (line_start_of white_space str_start), Some w]
                              (int (length (line_start_of white_space str_start))
                                 + int (length w))
                              1))))))"

text \<open>\<open>"".join(new_words)\<close>: TypeError (\<open>None\<close> here) when a piece is \<open>None\<close>.\<close>

definition join_pieces :: "string option list \<Rightarrow> string option" where
  "join_pieces ps = (if None \<in> set ps then None else Some (concat (map the ps)))"

definition on_CHARADDED_wrap :: "host \<Rightarrow> lang \<Rightarrow> int \<Rightarrow> string \<Rightarrow> state \<Rightarrow> outcome" where
  "on_CHARADDED_wrap H l_map ch ty s =
     (let pos = getCurrentPos (fst s);
          line_num = lineFromPosition (fst s) pos;
          line = getLine (fst s) line_num
      in if pos \<noteq> getLineEndPosition (fst s) line_num \<and> ch \<noteq> 32 then Inr s
         else
           (case wrap_context l_map ty (fst s) pos line of
              Inl e \<Rightarrow> Inl (e, s)
            | Inr None \<Rightarrow> Inr s
            | Inr (Some (line_len_limit, str_start)) \<Rightarrow>
                (case wrap_block line_len_limit str_start line of
                   Inl e \<Rightarrow> Inl (e, s)
                 | Inr None \<Rightarrow> Inr s
                 | Inr (Some new_words) \<Rightarrow>
                     (let s1 = issue H (ReplaceLine line_num []) s
                      in case join_pieces new_words of
                           None \<Rightarrow> Inl (TypeError, s1)
                         | Some text \<Rightarrow>
                             (let s2 = issue H LineEnd (issue H (AddText text) s1)
                              in if ty = ''docstring'' then
                                   (case last new_words of
                                      None \<Rightarrow> Inl (AttributeError, s2)
                                    | Some lw \<Rightarrow>
                                        if endswith lw [CHR 0x22, CHR 0x22, CHR 0x22]
                                        then Inr (issue H CharLeft
                                                   (issue H CharLeft (issue H CharLeft s2)))
                                        else Inr s2)
                                 else Inr s2)))))"

section \<open>The continuation inserter: \<open>_on_RETURN_insert_comment\<close>\<close>

definition on_RETURN_insert_comment :: "host \<Rightarrow> lang \<Rightarrow> state \<Rightarrow> outcome" where
  "on_RETURN_insert_comment H l_map s =
     (let line_num = lineFromPosition (fst s) (getCurrentPos (fst s));
          p_line = getLine (fst s) (line_num - 1);
          pp_line = getLine (fst s) (line_num - 2);
          trailing_string = strip (getLine (fst s) line_num)
      in if \<not> (is_comment (comment_str l_map) pp_line \<or> trailing_string \<noteq> [])
            \<or> \<not> is_comment (comment_str l_map) p_line
         then Inr s
         else
           (case str_index p_line (comment_str l_map) of
              None \<Rightarrow> Inl (ValueError, s)
            | Some i \<Rightarrow>
                Inr (issue H LineEnd
                      (issue H
                         (ReplaceLine line_num
                            (take i p_line @ comment_str l_map @ '' '' @ trailing_string))
                         s))))"

section \<open>The dispatcher: \<open>on_CHARADDED_insert\<close>\<close>

text \<open>\<open>_lang_map['.py']\<close> and \<open>_lang_map['.c']\<close> are the two entries of the table.\<close>

text \<open>The last branch of the dispatcher: the calls of the re-wrapper by file
  extension. An exception in the first call ends the event.\<close>

definition wrap_dispatch :: "host \<Rightarrow> string \<Rightarrow> int \<Rightarrow> state \<Rightarrow> outcome" where
  "wrap_dispatch H extension ch s =
     (if extension = ''.py'' then
        (case on_CHARADDED_wrap H lang_py ch ''docstring'' s of
           Inl e \<Rightarrow> Inl e
         | Inr s' \<Rightarrow> on_CHARADDED_wrap H lang_py ch ''comment'' s')
      else if extension = ''.c'' then
        on_CHARADDED_wrap H lang_c ch ''comment'' s
      else Inr s)"

definition on_CHARADDED_insert :: "host \<Rightarrow> int \<Rightarrow> state \<Rightarrow> outcome" where
  "on_CHARADDED_insert H ch s =
     (let file_extension = lower (splitext_ext (getCurrentFilename (fst s)))
      in case lang_map file_extension of
           None \<Rightarrow> Inr s
         | Some l_map \<Rightarrow>
             if ch = 10 then on_RETURN_insert_comment H l_map s
             else wrap_dispatch H file_extension ch s)"

section \<open>Reading a written paragraph back\<close>

text \<open>
  The text handed to the editor is one string. Its output lines are the parts between the
  line terminators \<open>\r\n\<close>; the words of an output line are what follows the line start,
  split at single spaces.
\<close>

fun split_crlf :: "string \<Rightarrow> string list" where
  "split_crlf [] = [[]]"
| "split_crlf [c] = [[c]]"
| "split_crlf (c # d # cs) =
     (if c = CR \<and> d = LF then [] # split_crlf cs
      else (case split_crlf (d # cs) of
              [] \<Rightarrow> [[c]]
            | l # ls \<Rightarrow> (c # l) # ls))"

fun split_sp :: "string \<Rightarrow> string list" where
  "split_sp [] = [[]]"
| "split_sp (c # cs) =
     (if c = CHR '' '' then [] # split_sp cs
      else (case split_sp cs of
              [] \<Rightarrow> [[c]]
            | w # ws \<Rightarrow> (c # w) # ws))"

fun join_sp :: "string list \<Rightarrow> string" where
  "join_sp [] = []"
| "join_sp [w] = w"
| "join_sp (w # v # ws) = w @ '' '' @ join_sp (v # ws)"

definition line_words :: "string \<Rightarrow> string \<Rightarrow> string list" where
  "line_words line_start l = split_sp (drop (length line_start) l)"

text \<open>The text the re-wrapper hands to \<open>addText\<close> for a line, when it writes at all.\<close>

definition wrap_text :: "int \<Rightarrow> string \<Rightarrow> string \<Rightarrow> string option" where
  "wrap_text line_len_limit str_start line =
     (case wrap_block line_len_limit str_start line of
        Inr (Some new_words) \<Rightarrow> join_pieces new_words
      | _ \<Rightarrow> None)"

section \<open>The conditions under which a handler writes\<close>

text \<open>
  The re-wrapper returns early at the caret test, in the context branch, at the length
  test, on an empty word list and on a word list of at most one word. \<open>wrap_accepts\<close>
  says that none of these returns is taken.
\<close>

definition wrap_accepts :: "lang \<Rightarrow> int \<Rightarrow> string \<Rightarrow> editor \<Rightarrow> bool" where
  "wrap_accepts l_map ch ty ed =
     (let pos = getCurrentPos ed;
          line_num = lineFromPosition ed pos;
          line = getLine ed line_num
      in (pos = getLineEndPosition ed line_num \<or> ch = 32)
         \<and> (case wrap_context l_map ty ed pos line of
               Inr (Some (line_len_limit, str_start)) \<Rightarrow>
                 line_len_limit < int (length (rstrip line))
                 \<and> split_ws line \<noteq> []
                 \<and> wrap_words str_start (split_ws line) \<noteq> None
             | _ \<Rightarrow> False))"

text \<open>The test of the continuation inserter, negated: the condition under which it does
  not return early.\<close>

definition continuation_accepts :: "lang \<Rightarrow> editor \<Rightarrow> bool" where
  "continuation_accepts l_map ed =
     (let line_num = lineFromPosition ed (getCurrentPos ed)
      in is_comment (comment_str l_map) (getLine ed (line_num - 1))
         \<and> (is_comment (comment_str l_map) (getLine ed (line_num - 2))
              \<or> strip (getLine ed line_num) \<noteq> []))"

text \<open>A further call of the re-wrapper after an outcome; an exception ends the run.\<close>

definition then_wrap :: "host \<Rightarrow> lang \<Rightarrow> int \<Rightarrow> string \<Rightarrow> outcome \<Rightarrow> outcome" where
  "then_wrap H l_map ch ty r =
     (case r of Inl e \<Rightarrow> Inl e | Inr s \<Rightarrow> on_CHARADDED_wrap H l_map ch ty s)"

text \<open>
  The replacement line as the specification words it: the line above up to and including
  the marker, then the marker, a space and the trailing content.
\<close>

definition spec_replacement_line :: "string \<Rightarrow> string \<Rightarrow> string \<Rightarrow> string option" where
  "spec_replacement_line p_line marker trailing =
     (case str_index p_line marker of
        None \<Rightarrow> None
      | Some i \<Rightarrow> Some (take (i + length marker) p_line @ marker @ '' '' @ trailing))"

section \<open>A sample buffer\<close>

text \<open>
  Three lines, \<open>x = 1\<close>, \<open>    # two\<close> and \<open>foo\<close>, the first two ended by
  \<open>\r\n\<close>, with the caret at the start of the third: the buffer after Enter was
  pressed in front of \<open>foo\<close> in the comment line. The sample host ignores commands.
\<close>

definition sample_lineFromPosition :: "int \<Rightarrow> int" where
  "sample_lineFromPosition p = (if p < 7 then 0 else if p < 18 then 1 else 2)"

definition sample_getLine :: "int \<Rightarrow> string" where
  "sample_getLine n =
     (if n = 0 then ''x = 1'' @ [CR, LF]
      else if n = 1 then ''    # two'' @ [CR, LF]
      else if n = 2 then ''foo''
      else [])"

definition sample_getLineEndPosition :: "int \<Rightarrow> int" where
  "sample_getLineEndPosition n = (if n = 0 then 5 else if n = 1 then 16 else 21)"

definition sample_getStyleAt :: "int \<Rightarrow> int" where
  "sample_getStyleAt p = (if 11 \<le> p \<and> p < 16 then 1 else 0)"

definition sample_editor :: editor where
  "sample_editor =
     \<lparr> getCurrentFilename = ''notes.py'', getCurrentPos = 18,
       lineFromPosition = sample_lineFromPosition, getLine = sample_getLine,
       getLineEndPosition = sample_getLineEndPosition, getStyleAt = sample_getStyleAt \<rparr>"

definition idle_host :: host where
  "idle_host c ed = ed"

section \<open>The greedy packing, as lists of words\<close>

text \<open>
  The loop emits pieces one by one. The same packing, told as data: \<open>pack\<close> returns
  the words that still go onto the running output line and the word groups of the output
  lines after it; \<open>wrap_groups\<close> is the grouping of a whole word list and
  \<open>block_lines\<close> the output lines it stands for. They are used to state what the
  loop builds; the theorems below relate them to \<open>wrap_loop\<close>.
\<close>

fun join_crlf :: "string list \<Rightarrow> string" where
  "join_crlf [] = []"
| "join_crlf [l] = l"
| "join_crlf (l # m # ls) = l @ [CR, LF] @ join_crlf (m # ls)"

fun pack :: "int \<Rightarrow> int \<Rightarrow> int \<Rightarrow> string list \<Rightarrow> string list \<times> string list list" where
  "pack lim lsl ll [] = ([], [])"
| "pack lim lsl ll (w # ws) =
     (if ll + (int (length w) + 1) > lim
      then (case pack lim lsl (lsl + int (length w)) ws of (a, r) \<Rightarrow> ([], (w # a) # r))
      else (case pack lim lsl (ll + (int (length w) + 1)) ws of (a, r) \<Rightarrow> (w # a, r)))"

definition cont_pieces :: "string list \<Rightarrow> string list" where
  "cont_pieces ws = concat (map (\<lambda>w. ['' '', w]) ws)"

definition line_pieces :: "string \<Rightarrow> string list \<Rightarrow> string list" where
  "line_pieces ls g = [[CR, LF], ls] @ (case g of [] \<Rightarrow> [] | w # g' \<Rightarrow> w # cont_pieces g')"

definition wrap_groups :: "int \<Rightarrow> string \<Rightarrow> string list \<Rightarrow> string list list" where
  "wrap_groups lim ls words =
     (case words of
        [] \<Rightarrow> []
      | w # it \<Rightarrow>
          (case pack lim (int (length ls)) (int (length ls) + int (length w)) it of
             (a, r) \<Rightarrow> (w # a) # r))"

definition block_lines :: "int \<Rightarrow> string \<Rightarrow> string list \<Rightarrow> string list" where
  "block_lines lim ls words = map (\<lambda>g. ls @ join_sp g) (wrap_groups lim ls words)"

section \<open>Lemmas\<close>

lemma split_ws_nonspace:
  "w \<in> set (split_ws s) \<Longrightarrow> w \<noteq> [] \<and> (\<forall>c \<in> set w. \<not> is_space c)"
proof (induction s arbitrary: w)
  case Nil then show ?case by simp
next
  case (Cons c cs)
  show ?case
  proof (cases "is_space c")
    case True with Cons show ?thesis by simp
  next
    case False
    show ?thesis
    proof (cases cs)
      case Nil with False Cons.prems show ?thesis by simp
    next
      case (Cons d ds)
      show ?thesis
      proof (cases "is_space d")
        case True
        with False Cons Cons.prems Cons.IH show ?thesis by auto
      next
        case nd: False
        show ?thesis
        proof (cases "split_ws cs")
          case Nil with False nd Cons Cons.prems show ?thesis by simp
        next
          case (Cons v vs)
          with False nd \<open>cs = d # ds\<close> Cons.prems have "w = c # v \<or> w \<in> set vs" by auto
          moreover have "v \<in> set (split_ws cs)" "\<And>u. u \<in> set vs \<Longrightarrow> u \<in> set (split_ws cs)"
            using Cons by auto
          ultimately show ?thesis using Cons.IH False by auto
        qed
      qed
    qed
  qed
qed

lemma split_ws_dropWhile: "split_ws s = split_ws (dropWhile is_space s)"
  by (induction s) auto

lemma split_ws_hd:
  "\<not> is_space c \<Longrightarrow> \<exists>w ws. split_ws (c # cs) = (c # w) # ws"
  by (cases cs) (auto split: list.splits)

lemma split_ws_Nil_iff: "split_ws s = [] \<longleftrightarrow> (\<forall>c \<in> set s. is_space c)"
proof (induction s)
  case Nil then show ?case by simp
next
  case (Cons c cs)
  show ?case
  proof (cases "is_space c")
    case True with Cons show ?thesis by simp
  next
    case False
    then obtain w ws where "split_ws (c # cs) = (c # w) # ws" using split_ws_hd by blast
    with False show ?thesis by auto
  qed
qed

lemma str_index_char:
  "c \<notin> set a \<Longrightarrow> str_index (a @ c # b) [c] = Some (length a)"
  by (induction a) auto

lemma rstrip_nonempty: "rstrip s \<noteq> [] \<Longrightarrow> \<exists>c \<in> set s. \<not> is_space c"
  by (auto simp: rstrip_def dropWhile_eq_Nil_conv)

lemma leading_white_space_ok:
  assumes "\<exists>c \<in> set line. \<not> is_space c"
  shows "leading_white_space line (split_ws line) = Inr (takeWhile is_space line)"
proof -
  from assms have ne: "dropWhile is_space line \<noteq> []"
    by (simp add: dropWhile_eq_Nil_conv) 
  then obtain c cs where dw: "dropWhile is_space line = c # cs" by (cases "dropWhile is_space line") auto
  then have nc: "\<not> is_space c" using hd_dropWhile[of is_space line] by auto
  then obtain w ws where sw: "split_ws (c # cs) = (c # w) # ws" using split_ws_hd by blast
  have "split_ws line = (c # w) # ws" using split_ws_dropWhile[of line] dw sw by simp
  moreover have "line = takeWhile is_space line @ c # cs" using dw takeWhile_dropWhile_id[of is_space line] by simp
  moreover have "c \<notin> set (takeWhile is_space line)" using nc by (auto dest: set_takeWhileD)
  ultimately show ?thesis
    using str_index_char[of c "takeWhile is_space line" cs]
      takeWhile_eq_take[of is_space line]
    by (simp add: leading_white_space_def)
qed

lemma split_crlf_single: "LF \<notin> set a \<Longrightarrow> split_crlf a = [a]"
  by (induction a rule: split_crlf.induct) auto

lemma split_crlf_append:
  "LF \<notin> set a \<Longrightarrow> split_crlf (a @ CR # LF # b) = a # split_crlf b"
proof (induction a rule: split_crlf.induct)
  case 1 then show ?case by simp
next
  case (2 c) then show ?case by (auto simp: CR_def LF_def)
next
  case (3 c d cs) then show ?case by auto
qed

lemma split_crlf_join:
  "ls \<noteq> [] \<Longrightarrow> \<forall>l \<in> set ls. LF \<notin> set l \<Longrightarrow> split_crlf (join_crlf ls) = ls"
proof (induction ls rule: join_crlf.induct)
  case 1 then show ?case by simp
next
  case (2 l) then show ?case by (simp add: split_crlf_single)
next
  case (3 l m ls)
  then show ?case using split_crlf_append[of l "join_crlf (m # ls)"] by simp
qed

lemma split_sp_single: "CHR '' '' \<notin> set w \<Longrightarrow> split_sp w = [w]"
  by (induction w) auto

lemma split_sp_append:
  "CHR '' '' \<notin> set w \<Longrightarrow> split_sp (w @ CHR '' '' # b) = w # split_sp b"
  by (induction w) auto

lemma split_sp_join:
  "g \<noteq> [] \<Longrightarrow> \<forall>w \<in> set g. CHR '' '' \<notin> set w \<Longrightarrow> split_sp (join_sp g) = g"
proof (induction g rule: join_sp.induct)
  case 1 then show ?case by simp
next
  case (2 w) then show ?case by (simp add: split_sp_single)
next
  case (3 w v ws)
  then show ?case using split_sp_append[of w "join_sp (v # ws)"] by simp
qed

lemma length_join_sp:
  "int (length (join_sp (w # a))) = int (length w) + (\<Sum>v\<leftarrow>a. int (length v) + 1)"
  by (induction a arbitrary: w) auto

lemma pack_break:
  "ll + (int (length w) + 1) > lim \<Longrightarrow>
   pack lim lsl ll (w # ws) =
     ([], (w # fst (pack lim lsl (lsl + int (length w)) ws))
            # snd (pack lim lsl (lsl + int (length w)) ws))"
  by (simp split: prod.splits)

lemma pack_cont:
  "\<not> ll + (int (length w) + 1) > lim \<Longrightarrow>
   pack lim lsl ll (w # ws) =
     (w # fst (pack lim lsl (ll + (int (length w) + 1)) ws),
      snd (pack lim lsl (ll + (int (length w) + 1)) ws))"
  by (simp split: prod.splits)

lemma cont_pieces_simps:
  "cont_pieces [] = []" "cont_pieces (w # a) = '' '' # w # cont_pieces a"
  by (simp_all add: cont_pieces_def)

lemma line_pieces_Cons: "line_pieces ls (w # a) = [CR, LF] # ls # w # cont_pieces a"
  by (simp add: line_pieces_def)

lemma wrap_loop_pack:
  "1 \<le> wc \<Longrightarrow>
   wrap_loop lim ls it nw ll wc =
     nw @ map Some (cont_pieces (fst (pack lim (int (length ls)) ll it))
                    @ concat (map (line_pieces ls) (snd (pack lim (int (length ls)) ll it))))"
proof (induction it arbitrary: nw ll wc)
  case Nil
  then show ?case by (simp add: cont_pieces_simps)
next
  case (Cons w it)
  show ?case
  proof (cases "ll + (int (length w) + 1) > lim")
    case True
    with Cons.prems have
      "wrap_loop lim ls (w # it) nw ll wc =
         wrap_loop lim ls it (nw @ [Some [CR, LF], Some ls, Some w])
           (int (length ls) + int (length w)) 1"
      by simp
    also have "\<dots> = (nw @ [Some [CR, LF], Some ls, Some w])
        @ map Some (cont_pieces (fst (pack lim (int (length ls)) (int (length ls) + int (length w)) it))
             @ concat (map (line_pieces ls) (snd (pack lim (int (length ls)) (int (length ls) + int (length w)) it))))"
      by (rule Cons.IH) simp
    finally show ?thesis using True
      by (simp add: pack_break cont_pieces_simps line_pieces_Cons del: pack.simps)
  next
    case False
    with Cons.prems have
      "wrap_loop lim ls (w # it) nw ll wc =
         wrap_loop lim ls it (nw @ [Some '' '', Some w]) (ll + (int (length w) + 1)) (wc + 1)"
      by simp
    also have "\<dots> = (nw @ [Some '' '', Some w])
        @ map Some (cont_pieces (fst (pack lim (int (length ls)) (ll + (int (length w) + 1)) it))
             @ concat (map (line_pieces ls) (snd (pack lim (int (length ls)) (ll + (int (length w) + 1)) it))))"
      by (rule Cons.IH) (use Cons.prems in simp)
    finally show ?thesis using False
      by (simp add: pack_cont cont_pieces_simps line_pieces_Cons del: pack.simps)
  qed
qed

lemma pack_concat: "fst (pack lim lsl ll it) @ concat (snd (pack lim lsl ll it)) = it"
proof (induction it arbitrary: ll)
  case Nil
  then show ?case by simp
next
  case (Cons w it)
  then show ?case
    by (cases "ll + (int (length w) + 1) > lim")
      (simp_all add: pack_break pack_cont del: pack.simps)
qed

lemma pack_nonempty: "g \<in> set (snd (pack lim lsl ll it)) \<Longrightarrow> g \<noteq> []"
proof (induction it arbitrary: ll)
  case Nil
  then show ?case by simp
next
  case (Cons w it)
  then show ?case
    by (cases "ll + (int (length w) + 1) > lim")
      (auto simp add: pack_break pack_cont simp del: pack.simps)
qed

lemma pack_fits:
  "(fst (pack lim lsl ll it) \<noteq> [] \<longrightarrow>
      ll + (\<Sum>v\<leftarrow>fst (pack lim lsl ll it). int (length v) + 1) \<le> lim)
   \<and> (\<forall>g \<in> set (snd (pack lim lsl ll it)).
         2 \<le> length g \<longrightarrow> lsl + int (length (join_sp g)) \<le> lim)"
proof (induction it arbitrary: ll)
  case Nil
  then show ?case by simp
next
  case (Cons w it)
  show ?case
  proof (cases "ll + (int (length w) + 1) > lim")
    case True
    obtain a r where p: "pack lim lsl (lsl + int (length w)) it = (a, r)" by (cases "pack lim lsl (lsl + int (length w)) it")
    from Cons.IH[of "lsl + int (length w)"] p
    have ih: "a \<noteq> [] \<longrightarrow> lsl + int (length w) + (\<Sum>v\<leftarrow>a. int (length v) + 1) \<le> lim"
      "\<forall>g \<in> set r. 2 \<le> length g \<longrightarrow> lsl + int (length (join_sp g)) \<le> lim" by auto
    have "2 \<le> length (w # a) \<longrightarrow> lsl + int (length (join_sp (w # a))) \<le> lim"
      using ih(1) length_join_sp[of w a] by (cases a) auto
    with True p ih(2) show ?thesis by simp
  next
    case False
    obtain a r where p: "pack lim lsl (ll + (int (length w) + 1)) it = (a, r)" by (cases "pack lim lsl (ll + (int (length w) + 1)) it")
    from Cons.IH[of "ll + (int (length w) + 1)"] p
    have ih: "a \<noteq> [] \<longrightarrow> ll + (int (length w) + 1) + (\<Sum>v\<leftarrow>a. int (length v) + 1) \<le> lim"
      "\<forall>g \<in> set r. 2 \<le> length g \<longrightarrow> lsl + int (length (join_sp g)) \<le> lim" by auto
    have "ll + (\<Sum>v\<leftarrow>w # a. int (length v) + 1) \<le> lim"
      using ih(1) False by (cases a) auto
    with False p ih(2) show ?thesis by simp
  qed
qed

lemma concat_cont_pieces: "concat (w # cont_pieces a) = join_sp (w # a)"
  by (induction a arbitrary: w) (auto simp: cont_pieces_simps)

lemma concat_line_pieces:
  "g \<noteq> [] \<Longrightarrow> concat (line_pieces ls g) = [CR, LF] @ ls @ join_sp g"
  using concat_cont_pieces[of "hd g" "tl g"] by (cases g) (simp_all add: line_pieces_Cons)

lemma join_crlf_Cons:
  "join_crlf (l # ls) = l @ concat (map (\<lambda>m. [CR, LF] @ m) ls)"
  by (induction ls arbitrary: l) auto

lemma concat_lines:
  "\<forall>g \<in> set r. g \<noteq> [] \<Longrightarrow>
   concat (concat (map (line_pieces ls) r)) = concat (map (\<lambda>g. [CR, LF] @ ls @ join_sp g) r)"
  by (induction r) (auto simp: concat_line_pieces simp del: append.simps)

lemma wrap_groups_concat: "concat (wrap_groups lim ls words) = words"
  using pack_concat
  by (auto simp: wrap_groups_def split: list.splits prod.splits)
    (metis fst_conv snd_conv)

lemma wrap_groups_nonempty: "g \<in> set (wrap_groups lim ls words) \<Longrightarrow> g \<noteq> []"
  using pack_nonempty
  by (auto simp: wrap_groups_def split: list.splits prod.splits)
    (metis snd_conv)

lemma wrap_groups_fits:
  assumes "g \<in> set (wrap_groups lim ls words)" "2 \<le> length g"
  shows "int (length (ls @ join_sp g)) \<le> lim"
proof (cases words)
  case Nil with assms show ?thesis by (simp add: wrap_groups_def)
next
  case (Cons w it)
  obtain a r where p: "pack lim (int (length ls)) (int (length ls) + int (length w)) it = (a, r)"
    by (cases "pack lim (int (length ls)) (int (length ls) + int (length w)) it")
  from pack_fits[of lim "int (length ls)" "int (length ls) + int (length w)" it] p
  have f: "a \<noteq> [] \<longrightarrow> int (length ls) + int (length w) + (\<Sum>v\<leftarrow>a. int (length v) + 1) \<le> lim"
    "\<forall>g \<in> set r. 2 \<le> length g \<longrightarrow> int (length ls) + int (length (join_sp g)) \<le> lim" by auto
  from assms Cons p have "g = w # a \<or> g \<in> set r" by (simp add: wrap_groups_def)
  then show ?thesis
  proof
    assume g: "g = w # a"
    with assms(2) have "a \<noteq> []" by auto
    with f(1) length_join_sp[of w a] g show ?thesis by simp
  next
    assume "g \<in> set r"
    with f(2) assms(2) show ?thesis by simp
  qed
qed

lemma wrap_loop_text:
  "join_pieces (wrap_loop lim ls it [Some ls, Some w] (int (length ls) + int (length w)) 1)
     = Some (join_crlf (map (\<lambda>g. ls @ join_sp g) (wrap_groups lim ls (w # it))))"
proof -
  obtain a r where p: "pack lim (int (length ls)) (int (length ls) + int (length w)) it = (a, r)"
    by (cases "pack lim (int (length ls)) (int (length ls) + int (length w)) it")
  have ne: "\<forall>g \<in> set r. g \<noteq> []" using pack_nonempty[of _ lim "int (length ls)" "int (length ls) + int (length w)" it] p by auto
  have "wrap_loop lim ls it [Some ls, Some w] (int (length ls) + int (length w)) 1
      = map Some ([ls, w] @ cont_pieces a @ concat (map (line_pieces ls) r))"
    using wrap_loop_pack[of 1 lim ls it "[Some ls, Some w]" "int (length ls) + int (length w)"] p by simp
  then have "join_pieces (wrap_loop lim ls it [Some ls, Some w] (int (length ls) + int (length w)) 1)
      = Some (concat ([ls, w] @ cont_pieces a @ concat (map (line_pieces ls) r)))"
    unfolding join_pieces_def by (simp add: comp_def del: append.simps map_append)
  also have "concat ([ls, w] @ cont_pieces a @ concat (map (line_pieces ls) r))
      = ls @ join_sp (w # a) @ concat (map (\<lambda>g. [CR, LF] @ ls @ join_sp g) r)"
    using concat_cont_pieces[of w a] concat_lines[OF ne, of ls] by simp
  also have "\<dots> = join_crlf (map (\<lambda>g. ls @ join_sp g) ((w # a) # r))"
    by (simp add: join_crlf_Cons comp_def)
  finally show ?thesis using p by (simp add: wrap_groups_def)
qed

lemma is_space_LF: "is_space LF" by (simp add: is_space_def LF_def)

lemma is_space_sp: "is_space (CHR '' '')" by (simp add: is_space_def)

lemma drop_marker_subset: "set (drop_marker st ws) \<subseteq> set ws"
  by (cases ws) (auto simp: drop_marker_def)

lemma strip_marker_chars:
  "v \<in> set (strip_marker st ws) \<Longrightarrow> \<exists>u \<in> set ws. set v \<subseteq> set u"
  by (cases ws) (auto simp: strip_marker_def dest: in_set_dropD split: if_splits)

lemma length_strip_marker: "length (strip_marker st ws) = length ws"
  by (cases ws) (auto simp: strip_marker_def)

lemma wrap_words_nonspace:
  assumes "wrap_words st (split_ws line) = Some words" "w \<in> set words" "c \<in> set w"
  shows "\<not> is_space c"
proof -
  from assms(1) have "words = strip_marker st (drop_marker st (split_ws line))"
    by (auto simp: wrap_words_def Let_def split: if_splits)
  with assms(2) obtain u where "u \<in> set (drop_marker st (split_ws line))" "set w \<subseteq> set u"
    using strip_marker_chars by blast
  with assms(3) have "u \<in> set (split_ws line)" "c \<in> set u"
    using drop_marker_subset by auto
  then show ?thesis using split_ws_nonspace by blast
qed

lemma wrap_words_length:
  "wrap_words st ws = Some words \<Longrightarrow> 2 \<le> length words"
  by (auto simp: wrap_words_def Let_def length_strip_marker split: if_splits)

lemma wrap_text_SomeD:
  assumes "wrap_text lim st line = Some text"
  shows "\<exists>words.
           leading_white_space line (split_ws line) = Inr (takeWhile is_space line)
         \<and> wrap_words st (split_ws line) = Some words
         \<and> lim < int (length (rstrip line))
         \<and> text = join_crlf (block_lines lim (line_start_of (takeWhile is_space line) st) words)"
proof -
  from assms have len: "lim < int (length (rstrip line))"
    by (auto simp: wrap_text_def wrap_block_def split: if_splits)
  from assms have ne: "split_ws line \<noteq> []"
    by (auto simp: wrap_text_def wrap_block_def split: if_splits sum.splits)
  then have lw: "leading_white_space line (split_ws line) = Inr (takeWhile is_space line)"
    using leading_white_space_ok split_ws_Nil_iff by blast
  from assms len ne lw obtain words where
    ww: "wrap_words st (split_ws line) = Some words"
    by (auto simp: wrap_text_def wrap_block_def split: option.splits)
  then obtain w it where wi: "words = w # it" using wrap_words_length[OF ww] by (cases words) auto
  from assms len ne lw ww wi have
    "text = join_crlf (block_lines lim (line_start_of (takeWhile is_space line) st) words)"
    by (simp add: wrap_text_def wrap_block_def wrap_loop_text block_lines_def)
  with lw ww len show ?thesis by blast
qed

lemma block_lines_split:
  assumes "words \<noteq> []" "LF \<notin> set ls" "\<forall>w \<in> set words. \<forall>c \<in> set w. \<not> is_space c"
  shows "split_crlf (join_crlf (block_lines lim ls words)) = block_lines lim ls words"
proof (rule split_crlf_join)
  show "block_lines lim ls words \<noteq> []"
    using assms(1) by (auto simp: block_lines_def wrap_groups_def split: list.splits prod.splits)
next
  have "\<And>g. g \<in> set (wrap_groups lim ls words) \<Longrightarrow> set g \<subseteq> set words"
    using wrap_groups_concat[of lim ls words] by (metis UN_iff set_concat subsetI)
  moreover have "\<And>g. \<forall>w \<in> set g. LF \<notin> set w \<Longrightarrow> LF \<notin> set (join_sp g)"
  proof -
    fix g show "\<forall>w \<in> set g. LF \<notin> set w \<Longrightarrow> LF \<notin> set (join_sp g)"
      by (induction g rule: join_sp.induct) (auto simp: LF_def)
  qed
  moreover have "\<forall>w \<in> set words. LF \<notin> set w" using assms(3) is_space_LF by blast
  ultimately show "\<forall>l \<in> set (block_lines lim ls words). LF \<notin> set l"
    using assms(2) by (auto simp: block_lines_def) blast
qed

lemma line_words_block:
  assumes "g \<noteq> []" "\<forall>w \<in> set g. \<forall>c \<in> set w. \<not> is_space c"
  shows "line_words ls (ls @ join_sp g) = g"
  using assms split_sp_join[of g] is_space_sp by (auto simp: line_words_def)

lemma groups_words:
  "g \<in> set (wrap_groups lim ls words) \<Longrightarrow> set g \<subseteq> set words"
  using wrap_groups_concat[of lim ls words] by (metis UN_iff set_concat subsetI)

lemma map_line_words_block:
  assumes "\<forall>w \<in> set words. \<forall>c \<in> set w. \<not> is_space c"
  shows "map (line_words ls) (block_lines lim ls words) = wrap_groups lim ls words"
proof -
  have "\<And>g. g \<in> set (wrap_groups lim ls words) \<Longrightarrow> line_words ls (ls @ join_sp g) = g"
    using line_words_block wrap_groups_nonempty groups_words assms by (meson subsetD)
  then show ?thesis by (simp add: block_lines_def map_idI)
qed

lemma join_sp_append:
  "a \<noteq> [] \<Longrightarrow> b \<noteq> [] \<Longrightarrow> join_sp (a @ b) = join_sp a @ '' '' @ join_sp b"
  by (induction a rule: join_sp.induct) (auto simp: neq_Nil_conv)

lemma join_sp_concat:
  "\<forall>g \<in> set gs. g \<noteq> [] \<Longrightarrow> join_sp (map join_sp gs) = join_sp (concat gs)"
proof (induction gs)
  case Nil then show ?case by simp
next
  case (Cons g gs)
  show ?case
  proof (cases gs)
    case Nil then show ?thesis by simp
  next
    case (Cons h hs)
    with Cons.prems have "concat gs \<noteq> []" "g \<noteq> []" by auto
    with Cons.IH Cons.prems Cons show ?thesis by (simp add: join_sp_append)
  qed
qed

lemma length_word_le_join:
  "w \<in> set g \<Longrightarrow> length w \<le> length (join_sp g)"
  by (induction g rule: join_sp.induct) auto

lemma concat_nth_singleton:
  assumes "\<forall>g \<in> set gs. g \<noteq> []"
    and "\<forall>g \<in> set gs. \<forall>w \<in> set g. P w \<longrightarrow> g = [w]"
    and "i < length (concat gs)" and "P (concat gs ! i)"
  shows "\<exists>j < length gs. gs ! j = [concat gs ! i]
           \<and> concat (take j gs) = take i (concat gs)
           \<and> concat (drop (Suc j) gs) = drop (Suc i) (concat gs)"
  using assms
proof (induction gs arbitrary: i)
  case Nil then show ?case by simp
next
  case (Cons g gs)
  show ?case
  proof (cases "i < length g")
    case True
    then have ci: "concat (g # gs) ! i = g ! i" by (simp add: nth_append)
    moreover have "g ! i \<in> set g" using True by simp
    ultimately have g: "g = [g ! i]" using Cons.prems(2,4) by auto
    then have l1: "length g = 1" by (metis length_Cons list.size(3) One_nat_def)
    with True have i0: "i = 0" by simp
    from l1 have d: "drop (Suc 0) g = []" by simp
    from g ci have "(g # gs) ! 0 = [concat (g # gs) ! i]" by simp
    moreover have "concat (take 0 (g # gs)) = take i (concat (g # gs))" using i0 by simp
    moreover have "concat (drop (Suc 0) (g # gs)) = drop (Suc i) (concat (g # gs))"
      using i0 l1 d by simp
    ultimately show ?thesis by blast
  next
    case False
    then have nth: "concat (g # gs) ! i = concat gs ! (i - length g)" by (simp add: nth_append)
    from False Cons.prems(3) have lt: "i - length g < length (concat gs)" by auto
    from Cons.IH[of "i - length g"] Cons.prems lt nth
    obtain j where j: "j < length gs" "gs ! j = [concat gs ! (i - length g)]"
      "concat (take j gs) = take (i - length g) (concat gs)"
      "concat (drop (Suc j) gs) = drop (Suc (i - length g)) (concat gs)" by auto
    from False have "Suc i - length g = Suc (i - length g)" by simp
    with j nth False show ?thesis
      by (intro exI[of _ "Suc j"]) simp
  qed
qed

lemma one_word: "g \<noteq> [] \<Longrightarrow> \<not> 2 \<le> length g \<Longrightarrow> \<exists>w. g = [w]"
  by (cases g) (auto simp: Suc_le_eq)

lemma wrap_text_lines:
  assumes "wrap_text lim st line = Some text"
    and "leading_white_space line (split_ws line) = Inr white_space"
    and "wrap_words st (split_ws line) = Some words"
    and "LF \<notin> set (line_start_of white_space st)"
  shows "split_crlf text = block_lines lim (line_start_of white_space st) words"
    and "map (line_words (line_start_of white_space st)) (split_crlf text)
           = wrap_groups lim (line_start_of white_space st) words"
proof -
  from wrap_text_SomeD[OF assms(1)] assms(2,3)
  have t: "text = join_crlf (block_lines lim (line_start_of white_space st) words)" by auto
  have ns: "\<forall>w \<in> set words. \<forall>c \<in> set w. \<not> is_space c"
    using wrap_words_nonspace[OF assms(3)] by blast
  have ne: "words \<noteq> []" using wrap_words_length[OF assms(3)] by auto
  show a: "split_crlf text = block_lines lim (line_start_of white_space st) words"
    using t block_lines_split[OF ne assms(4) ns] by simp
  show "map (line_words (line_start_of white_space st)) (split_crlf text)
           = wrap_groups lim (line_start_of white_space st) words"
    using a map_line_words_block[OF ns] by simp
qed

section \<open>The claims about the re-wrapper's output\<close>

text \<open>
  In the three theorems that follow, \<open>text\<close> is the paragraph the re-wrapper builds
  for \<open>line\<close>, \<open>white_space\<close> the leading whitespace it captured and
  \<open>words\<close> the word list after the marker steps. An editor line carries its line
  terminator at its end only, so the line start holds no line feed.
\<close>

text \<open>
  C1. For every line the re-wrapper accepts, every output line starts with the synthesized
  line start, and the words of the output lines, read in order after that prefix is
  stripped, are exactly the words of the input line after the marker steps; joined with
  single spaces they give the same text as the word list. No word is lost, duplicated or
  reordered.
\<close>

theorem wrap_keeps_words:
  assumes "wrap_text lim st line = Some text"
    and "leading_white_space line (split_ws line) = Inr white_space"
    and "wrap_words st (split_ws line) = Some words"
    and "LF \<notin> set (line_start_of white_space st)"
  shows "list_all (\<lambda>l. startswith l (line_start_of white_space st)) (split_crlf text)
       \<and> concat (map (line_words (line_start_of white_space st)) (split_crlf text)) = words
       \<and> join_sp (map (drop (length (line_start_of white_space st))) (split_crlf text))
           = join_sp words"
proof -
  let ?ls = "line_start_of white_space st"
  note L = wrap_text_lines[OF assms]
  have 1: "list_all (\<lambda>l. startswith l ?ls) (split_crlf text)"
    unfolding L(1) by (simp add: block_lines_def list_all_iff startswith_def)
  have 2: "concat (map (line_words ?ls) (split_crlf text)) = words"
    unfolding L(2) by (rule wrap_groups_concat)
  have "map (drop (length ?ls)) (split_crlf text) = map join_sp (wrap_groups lim ?ls words)"
    unfolding L(1) by (simp add: block_lines_def)
  then have 3: "join_sp (map (drop (length ?ls)) (split_crlf text)) = join_sp words"
    using join_sp_concat[of "wrap_groups lim ?ls words"] wrap_groups_nonempty
      wrap_groups_concat[of lim ?ls words] by auto
  from 1 2 3 show ?thesis by blast
qed

theorem wrap_keeps_words_witness:
  "wrap_text 10 ''#'' ''    # this is a long comment line''
     = Some (''    # this'' @ [CR, LF] @ ''    # is a'' @ [CR, LF] @ ''    # long'' @ [CR, LF]
             @ ''    # comment'' @ [CR, LF] @ ''    # line'')
   \<and> concat (map (line_words ''    # '')
        (split_crlf (''    # this'' @ [CR, LF] @ ''    # is a'' @ [CR, LF] @ ''    # long''
             @ [CR, LF] @ ''    # comment'' @ [CR, LF] @ ''    # line'')))
     = [''this'', ''is'', ''a'', ''long'', ''comment'', ''line'']"
proof -
  let ?L = "''    # this is a long comment line''"
  let ?T = "''    # this'' @ [CR, LF] @ ''    # is a'' @ [CR, LF] @ ''    # long'' @ [CR, LF]
             @ ''    # comment'' @ [CR, LF] @ ''    # line''"
  have h1: "wrap_text 10 ''#'' ?L = Some ?T" by code_simp
  have h2: "leading_white_space ?L (split_ws ?L) = Inr ''    ''" by code_simp
  have h3: "wrap_words ''#'' (split_ws ?L)
              = Some [''this'', ''is'', ''a'', ''long'', ''comment'', ''line'']" by code_simp
  have h4: "LF \<notin> set (line_start_of ''    '' ''#'')" by code_simp
  have h5: "line_start_of ''    '' ''#'' = ''    # ''" by code_simp
  from wrap_keeps_words[OF h1 h2 h3 h4] h1 h5 show ?thesis by simp
qed

text \<open>
  C2. For every line the re-wrapper accepts, an output line longer than the column limit
  (line start and words counted in characters) is the line start followed by one single
  word of the list: every output line that carries two or more words is within the limit.
\<close>

theorem wrap_line_fits:
  assumes "wrap_text lim st line = Some text"
    and "leading_white_space line (split_ws line) = Inr white_space"
    and "wrap_words st (split_ws line) = Some words"
    and "LF \<notin> set (line_start_of white_space st)"
    and "l \<in> set (split_crlf text)"
    and "lim < int (length l)"
  shows "\<exists>w \<in> set words. l = line_start_of white_space st @ w
            \<and> line_words (line_start_of white_space st) l = [w]"
proof -
  let ?ls = "line_start_of white_space st"
  note L = wrap_text_lines[OF assms(1-4)]
  from assms(5) L(1) obtain g where g: "g \<in> set (wrap_groups lim ?ls words)" "l = ?ls @ join_sp g"
    by (auto simp: block_lines_def)
  have "\<not> 2 \<le> length g" using wrap_groups_fits[OF g(1)] g(2) assms(6) by auto
  moreover have "g \<noteq> []" using wrap_groups_nonempty[OF g(1)] .
  ultimately obtain w where w: "g = [w]" using one_word by blast
  have ws: "w \<in> set words" using groups_words[OF g(1)] w by simp
  have "\<forall>v \<in> set g. \<forall>c \<in> set v. \<not> is_space c"
    using wrap_words_nonspace[OF assms(3)] groups_words[OF g(1)] by blast
  then have "line_words ?ls l = [w]" using line_words_block[of g ?ls] g(2) w by simp
  with ws g(2) w show ?thesis by auto
qed

theorem wrap_line_fits_witness:
  "(\<exists>w \<in> set [''this'', ''is'', ''a'', ''long'', ''comment'', ''line''].
      ''    # comment'' = ''    # '' @ w \<and> line_words ''    # '' ''    # comment'' = [w])"
proof -
  let ?L = "''    # this is a long comment line''"
  let ?T = "''    # this'' @ [CR, LF] @ ''    # is a'' @ [CR, LF] @ ''    # long'' @ [CR, LF]
             @ ''    # comment'' @ [CR, LF] @ ''    # line''"
  have h1: "wrap_text 10 ''#'' ?L = Some ?T" by code_simp
  have h2: "leading_white_space ?L (split_ws ?L) = Inr ''    ''" by code_simp
  have h3: "wrap_words ''#'' (split_ws ?L)
              = Some [''this'', ''is'', ''a'', ''long'', ''comment'', ''line'']" by code_simp
  have h4: "LF \<notin> set (line_start_of ''    '' ''#'')" by code_simp
  have h5: "''    # comment'' \<in> set (split_crlf ?T)" by code_simp
  have h6: "(10::int) < int (length ''    # comment'')" by simp
  have h7: "line_start_of ''    '' ''#'' = ''    # ''" by code_simp
  from wrap_line_fits[OF h1 h2 h3 h4 h5 h6] show ?thesis unfolding h7 .
qed

text \<open>
  C3. A word of the list whose own length exceeds the column limit sits alone and whole
  on an output line: the words before it fill the output lines before that line, and the
  words after it start on the next output line.
\<close>

theorem wrap_long_word_alone:
  assumes "wrap_text lim st line = Some text"
    and "leading_white_space line (split_ws line) = Inr white_space"
    and "wrap_words st (split_ws line) = Some words"
    and "LF \<notin> set (line_start_of white_space st)"
    and "i < length words"
    and "lim < int (length (words ! i))"
  shows "\<exists>j < length (split_crlf text).
           split_crlf text ! j = line_start_of white_space st @ words ! i
         \<and> concat (map (line_words (line_start_of white_space st)) (take j (split_crlf text)))
             = take i words
         \<and> concat (map (line_words (line_start_of white_space st))
                      (drop (Suc j) (split_crlf text)))
             = drop (Suc i) words"
proof -
  let ?ls = "line_start_of white_space st"
  let ?gs = "wrap_groups lim ?ls words"
  note L = wrap_text_lines[OF assms(1-4)]
  have cg: "concat ?gs = words" by (rule wrap_groups_concat)
  have ne: "\<forall>g \<in> set ?gs. g \<noteq> []" using wrap_groups_nonempty by blast
  have alone: "\<forall>g \<in> set ?gs. \<forall>w \<in> set g. lim < int (length w) \<longrightarrow> g = [w]"
  proof (intro ballI impI)
    fix g w assume g: "g \<in> set ?gs" and w: "w \<in> set g" and long: "lim < int (length w)"
    have "\<not> 2 \<le> length g"
    proof
      assume "2 \<le> length g"
      then have "int (length (?ls @ join_sp g)) \<le> lim" using wrap_groups_fits[OF g] by simp
      moreover have "length w \<le> length (join_sp g)" using length_word_le_join[OF w] .
      ultimately show False using long by simp
    qed
    then obtain v where "g = [v]" using ne g one_word by blast
    with w show "g = [w]" by simp
  qed
  from concat_nth_singleton[of ?gs "\<lambda>w. lim < int (length w)" i, OF ne alone] assms(5,6) cg
  obtain j where j: "j < length ?gs" "?gs ! j = [words ! i]"
    "concat (take j ?gs) = take i words" "concat (drop (Suc j) ?gs) = drop (Suc i) words"
    by auto
  have len: "length (split_crlf text) = length ?gs" unfolding L(1) by (simp add: block_lines_def)
  have nth: "split_crlf text ! j = ?ls @ words ! i"
    unfolding L(1) using j(1,2) by (simp add: block_lines_def)
  have tk: "map (line_words ?ls) (take j (split_crlf text)) = take j ?gs"
    using L(2) by (simp add: take_map[symmetric])
  have dr: "map (line_words ?ls) (drop (Suc j) (split_crlf text)) = drop (Suc j) ?gs"
    using L(2) by (simp add: drop_map[symmetric])
  from j len nth tk dr show ?thesis by auto
qed

theorem wrap_long_word_alone_witness:
  "\<exists>j < length (split_crlf (''# abcdefghijklmnop'' @ [CR, LF] @ ''# xy'')).
      split_crlf (''# abcdefghijklmnop'' @ [CR, LF] @ ''# xy'') ! j
        = ''# '' @ [''abcdefghijklmnop'', ''xy''] ! 0
    \<and> concat (map (line_words ''# '')
         (take j (split_crlf (''# abcdefghijklmnop'' @ [CR, LF] @ ''# xy''))))
        = take 0 [''abcdefghijklmnop'', ''xy'']
    \<and> concat (map (line_words ''# '')
         (drop (Suc j) (split_crlf (''# abcdefghijklmnop'' @ [CR, LF] @ ''# xy''))))
        = drop (Suc 0) [''abcdefghijklmnop'', ''xy'']"
proof -
  let ?L = "''# abcdefghijklmnop xy''"
  let ?T = "''# abcdefghijklmnop'' @ [CR, LF] @ ''# xy''"
  have h1: "wrap_text 10 ''#'' ?L = Some ?T" by code_simp
  have h2: "leading_white_space ?L (split_ws ?L) = Inr []" by code_simp
  have h3: "wrap_words ''#'' (split_ws ?L) = Some [''abcdefghijklmnop'', ''xy'']" by code_simp
  have h4: "LF \<notin> set (line_start_of [] ''#'')" by code_simp
  have h5: "0 < length [''abcdefghijklmnop'', ''xy'']" by simp
  have h6: "(10::int) < int (length ([''abcdefghijklmnop'', ''xy''] ! 0))" by simp
  have h7: "line_start_of [] ''#'' = ''# ''" by code_simp
  from wrap_long_word_alone[OF h1 h2 h3 h4 h5 h6] show ?thesis unfolding h7 .
qed

lemma wrap_words_not_Nil: "wrap_words st ws \<noteq> Some []"
  using wrap_words_length[of st ws "[]"] by auto

lemma wrap_block_no_error:
  assumes "split_ws line \<noteq> []"
  shows "wrap_block lim st line \<noteq> Inl e"
proof -
  have "leading_white_space line (split_ws line) = Inr (takeWhile is_space line)"
    using assms leading_white_space_ok split_ws_Nil_iff by blast
  then show ?thesis using wrap_words_not_Nil[of st "split_ws line"]
    by (auto simp: wrap_block_def split: option.splits list.splits)
qed

text \<open>
  C10. When the length test passes for a column limit that is not negative, the line holds
  a character that is not whitespace: the word list is not empty, \<open>words[0][0]\<close> and
  \<open>line.index\<close> succeed and give the leading whitespace of the line, and the
  re-wrapper raises nothing. The test \<open>words == []\<close> that follows can therefore
  never hold.
\<close>

theorem wrap_words_present:
  assumes "0 \<le> lim" and "lim < int (length (rstrip line))"
  shows "split_ws line \<noteq> []
       \<and> leading_white_space line (split_ws line) = Inr (takeWhile is_space line)
       \<and> wrap_block lim st line \<noteq> Inl e"
proof -
  from assms have "rstrip line \<noteq> []" by auto
  then have ex: "\<exists>c \<in> set line. \<not> is_space c" by (rule rstrip_nonempty)
  then have ne: "split_ws line \<noteq> []" using split_ws_Nil_iff by blast
  from ex ne show ?thesis using leading_white_space_ok wrap_block_no_error by blast
qed

theorem wrap_words_present_witness:
  "split_ws ''  # ab cd'' \<noteq> []
   \<and> leading_white_space ''  # ab cd'' (split_ws ''  # ab cd'')
       = Inr (takeWhile is_space ''  # ab cd'')
   \<and> wrap_block 5 ''#'' ''  # ab cd'' \<noteq> Inl IndexError"
proof -
  have h1: "(0::int) \<le> 5" by simp
  have h2: "(5::int) < int (length (rstrip ''  # ab cd''))" by code_simp
  from wrap_words_present[OF h1 h2] show ?thesis .
qed

lemma wrap_short: "int (length (rstrip line)) \<le> lim \<Longrightarrow> wrap_block lim st line = Inr None"
  by (simp add: wrap_block_def)

section \<open>The claims about the handlers\<close>

text \<open>
  C4. When the context gives the column limit \<open>lim\<close> and the current line, with its
  trailing whitespace stripped, has at most \<open>lim\<close> characters, the re-wrapper builds
  nothing and returns the state it was given, with no command issued; so does any number
  of further calls. The comparison is \<open>\<le>\<close>: a line exactly at the limit is left
  alone.
\<close>

theorem wrap_short_line_noop:
  assumes "wrap_context l_map ty (fst s) (getCurrentPos (fst s))
             (getLine (fst s) (lineFromPosition (fst s) (getCurrentPos (fst s))))
           = Inr (Some (lim, st))"
    and "int (length (rstrip (getLine (fst s) (lineFromPosition (fst s) (getCurrentPos (fst s))))))
           \<le> lim"
  shows "wrap_block lim st (getLine (fst s) (lineFromPosition (fst s) (getCurrentPos (fst s))))
           = Inr None
       \<and> on_CHARADDED_wrap H l_map ch ty s = Inr s
       \<and> (then_wrap H l_map ch ty ^^ n) (Inr s) = Inr s"
proof -
  have 1: "wrap_block lim st (getLine (fst s) (lineFromPosition (fst s) (getCurrentPos (fst s))))
           = Inr None" using assms(2) by (rule wrap_short)
  have 2: "on_CHARADDED_wrap H l_map ch ty s = Inr s"
    using assms(1) 1 by (simp add: on_CHARADDED_wrap_def Let_def)
  have 3: "(then_wrap H l_map ch ty ^^ n) (Inr s) = Inr s"
    by (induction n) (simp_all add: then_wrap_def 2)
  from 1 2 3 show ?thesis by blast
qed

lemma sample_line1: "getLine (fst (sample_editor\<lparr>getCurrentPos := 16\<rparr>, []))
   (lineFromPosition (fst (sample_editor\<lparr>getCurrentPos := 16\<rparr>, []))
      (getCurrentPos (fst (sample_editor\<lparr>getCurrentPos := 16\<rparr>, [])))) = ''    # two'' @ [CR, LF]"
  by (simp add: sample_editor_def sample_lineFromPosition_def sample_getLine_def)

theorem wrap_short_line_noop_witness:
  "on_CHARADDED_wrap idle_host (lang_py\<lparr>comment_limit := 9\<rparr>) 111 ''comment''
      (sample_editor\<lparr>getCurrentPos := 16\<rparr>, [])
     = Inr (sample_editor\<lparr>getCurrentPos := 16\<rparr>, [])
   \<and> int (length (rstrip (''    # two'' @ [CR, LF]))) = 9"
proof -
  let ?s = "(sample_editor\<lparr>getCurrentPos := 16\<rparr>, [])"
  have r: "rstrip (''    # two'' @ [CR, LF]) = ''    # two''" by code_simp
  have c: "is_comment ''#'' (''    # two'' @ [CR, LF])" by code_simp
  have h1: "wrap_context (lang_py\<lparr>comment_limit := 9\<rparr>) ''comment'' (fst ?s)
              (getCurrentPos (fst ?s))
              (getLine (fst ?s) (lineFromPosition (fst ?s) (getCurrentPos (fst ?s))))
            = Inr (Some (9, ''#''))"
    unfolding sample_line1 using c by (simp add: wrap_context_def lang_py_def)
  have h2: "int (length (rstrip (getLine (fst ?s)
              (lineFromPosition (fst ?s) (getCurrentPos (fst ?s)))))) \<le> 9"
    unfolding sample_line1 r by simp
  from wrap_short_line_noop[OF h1 h2, of idle_host 111 0] r show ?thesis by simp
qed

lemma str_index_skip:
  assumes "c \<notin> set a" and "prefix (c # cs) b"
  shows "str_index (a @ b) (c # cs) = Some (length a)"
  using assms
proof (induction a)
  case Nil
  then show ?case by (cases b) auto
next
  case (Cons x a)
  then show ?case by auto
qed

lemma str_index_empty: "str_index p [] = Some 0"
  by (cases p) auto

lemma is_comment_index:
  assumes "is_comment cs p" and "cs \<noteq> []"
  shows "str_index p cs = Some (length (takeWhile is_space p))"
proof -
  obtain c cs' where cs: "cs = c # cs'" using assms(2) by (cases cs) auto
  from assms(1) have pre: "prefix (c # cs') (dropWhile is_space p)"
    by (simp add: is_comment_def startswith_def lstrip_def cs)
  then have "dropWhile is_space p \<noteq> []" by (cases "dropWhile is_space p") simp_all
  then have "\<not> is_space (hd (dropWhile is_space p))" by (rule hd_dropWhile)
  moreover from pre have "hd (dropWhile is_space p) = c" by (cases "dropWhile is_space p") auto
  ultimately have "c \<notin> set (takeWhile is_space p)" by (auto dest: set_takeWhileD)
  from str_index_skip[OF this pre] show ?thesis by (simp add: cs)
qed

lemma is_comment_index_ex: "is_comment cs p \<Longrightarrow> \<exists>i. str_index p cs = Some i"
  using is_comment_index[of cs p] str_index_empty[of p] by (cases "cs = []") auto

lemma str_index_prefix: "str_index s sub = Some i \<Longrightarrow> prefix sub (drop i s)"
proof (induction s arbitrary: i)
  case Nil
  then show ?case by (auto split: if_splits)
next
  case (Cons c s)
  then show ?case by (auto split: if_splits)
qed

lemma str_index_le: "str_index s sub = Some i \<Longrightarrow> i \<le> length s"
  by (induction s arbitrary: i) (auto split: if_splits)

lemma str_index_take:
  assumes "str_index s sub = Some i"
  shows "take (i + length sub) s = take i s @ sub"
proof -
  from str_index_prefix[OF assms] obtain r where r: "drop i s = sub @ r" by (auto simp: prefix_def)
  have "take (i + length sub) s = take i s @ take (length sub) (drop i s)"
    by (simp add: take_add)
  with r show ?thesis by simp
qed

lemma insert_comment_negative:
  "\<not> continuation_accepts l_map (fst s) \<Longrightarrow> on_RETURN_insert_comment H l_map s = Inr s"
  by (auto simp: continuation_accepts_def on_RETURN_insert_comment_def Let_def)

lemma insert_comment_positive:
  assumes "continuation_accepts l_map (fst s)"
    and "str_index (getLine (fst s) (lineFromPosition (fst s) (getCurrentPos (fst s)) - 1))
           (comment_str l_map) = Some i"
  shows "on_RETURN_insert_comment H l_map s =
           Inr (issue H LineEnd
                 (issue H
                    (ReplaceLine (lineFromPosition (fst s) (getCurrentPos (fst s)))
                       (take i (getLine (fst s) (lineFromPosition (fst s) (getCurrentPos (fst s)) - 1))
                        @ comment_str l_map @ '' ''
                        @ strip (getLine (fst s) (lineFromPosition (fst s) (getCurrentPos (fst s))))))
                    s))"
  using assms
  by (auto simp: continuation_accepts_def on_RETURN_insert_comment_def Let_def)

lemma continuation_index:
  "continuation_accepts l_map ed \<Longrightarrow>
   \<exists>i. str_index (getLine ed (lineFromPosition ed (getCurrentPos ed) - 1)) (comment_str l_map)
          = Some i"
  using is_comment_index_ex by (auto simp: continuation_accepts_def Let_def)

lemma issue_log: "snd (issue H c s) = snd s @ [c]"
  by (simp add: issue_def)

lemma issue_neq: "issue H c (issue H d s) \<noteq> s"
proof
  assume "issue H c (issue H d s) = s"
  then have "snd (issue H c (issue H d s)) = snd s" by simp
  then show False by (simp add: issue_log)
qed

lemma sample_line_num: "sample_lineFromPosition 18 = 2"
  by (simp add: sample_lineFromPosition_def)

lemma sample_p_comment: "is_comment ''#'' (sample_getLine 1)"
  by code_simp

lemma sample_pp_plain: "\<not> is_comment ''#'' (sample_getLine 0)"
  by code_simp

lemma sample_trailing: "strip (sample_getLine 2) = ''foo''"
  by code_simp

lemma sample_index: "str_index (sample_getLine 1) ''#'' = Some 4"
  by code_simp

lemma sample_indent: "takeWhile is_space (sample_getLine 1) = ''    ''"
  by code_simp

lemma sample_take: "take 4 (sample_getLine 1) = ''    ''"
  by code_simp

lemma sample_continuation:
  "on_RETURN_insert_comment idle_host lang_py (sample_editor, [])
     = Inr (sample_editor, [ReplaceLine 2 ''    # foo'', LineEnd])"
  by (simp add: on_RETURN_insert_comment_def Let_def sample_editor_def lang_py_def
      sample_line_num sample_p_comment sample_pp_plain sample_trailing sample_index
      sample_take issue_def idle_host_def)

text \<open>
  C5. The continuation inserter writes exactly when the line above is a comment line and
  the line two above is a comment line or the stripped new line is not empty. It then
  replaces the new line by the line above up to the marker, the marker, a space and the
  stripped content of the new line, and moves the caret to the line end; for a non-empty
  marker the part up to the marker is the leading whitespace of the line above. Otherwise
  it returns the state unchanged.
\<close>

theorem continuation_decision:
  assumes "line_num = lineFromPosition (fst s) (getCurrentPos (fst s))"
    and "p_line = getLine (fst s) (line_num - 1)"
    and "pp_line = getLine (fst s) (line_num - 2)"
    and "trailing = strip (getLine (fst s) line_num)"
    and "marker = comment_str l_map"
  shows "(is_comment marker p_line \<and> (is_comment marker pp_line \<or> trailing \<noteq> []) \<longrightarrow>
           (\<exists>i. str_index p_line marker = Some i
               \<and> (marker \<noteq> [] \<longrightarrow> take i p_line = takeWhile is_space p_line)
               \<and> on_RETURN_insert_comment H l_map s =
                   Inr (issue H LineEnd
                         (issue H (ReplaceLine line_num
                                     (take i p_line @ marker @ '' '' @ trailing)) s))))
       \<and> (\<not> (is_comment marker p_line \<and> (is_comment marker pp_line \<or> trailing \<noteq> [])) \<longrightarrow>
            on_RETURN_insert_comment H l_map s = Inr s)
       \<and> (on_RETURN_insert_comment H l_map s = Inr s \<longleftrightarrow>
            \<not> (is_comment marker p_line \<and> (is_comment marker pp_line \<or> trailing \<noteq> [])))"
proof -
  let ?D = "is_comment marker p_line \<and> (is_comment marker pp_line \<or> trailing \<noteq> [])"
  have D: "?D \<longleftrightarrow> continuation_accepts l_map (fst s)"
    using assms by (simp add: continuation_accepts_def Let_def)
  have pos: "?D \<longrightarrow>
           (\<exists>i. str_index p_line marker = Some i
               \<and> (marker \<noteq> [] \<longrightarrow> take i p_line = takeWhile is_space p_line)
               \<and> on_RETURN_insert_comment H l_map s =
                   Inr (issue H LineEnd
                         (issue H (ReplaceLine line_num
                                     (take i p_line @ marker @ '' '' @ trailing)) s)))"
  proof
    assume d: ?D
    then obtain i where i: "str_index p_line marker = Some i" using is_comment_index_ex by blast
    have ind: "marker \<noteq> [] \<longrightarrow> take i p_line = takeWhile is_space p_line"
    proof
      assume "marker \<noteq> []"
      with d i have "i = length (takeWhile is_space p_line)" using is_comment_index by fastforce
      then show "take i p_line = takeWhile is_space p_line"
        using takeWhile_eq_take[of is_space p_line] by simp
    qed
    from d D have acc: "continuation_accepts l_map (fst s)" by simp
    from i assms have i': "str_index (getLine (fst s) (lineFromPosition (fst s)
        (getCurrentPos (fst s)) - 1)) (comment_str l_map) = Some i" by simp
    from insert_comment_positive[OF acc i', of H] assms i ind
    show "\<exists>i. str_index p_line marker = Some i
               \<and> (marker \<noteq> [] \<longrightarrow> take i p_line = takeWhile is_space p_line)
               \<and> on_RETURN_insert_comment H l_map s =
                   Inr (issue H LineEnd
                         (issue H (ReplaceLine line_num
                                     (take i p_line @ marker @ '' '' @ trailing)) s))"
      by auto
  qed
  have neg: "\<not> ?D \<longrightarrow> on_RETURN_insert_comment H l_map s = Inr s"
    using D insert_comment_negative by blast
  have iff: "on_RETURN_insert_comment H l_map s = Inr s \<longleftrightarrow> \<not> ?D"
  proof
    assume eq: "on_RETURN_insert_comment H l_map s = Inr s"
    show "\<not> ?D"
    proof
      assume ?D
      with pos obtain c d where
        "on_RETURN_insert_comment H l_map s = Inr (issue H c (issue H d s))" by blast
      with eq have "issue H c (issue H d s) = s" by simp
      then show False using issue_neq by blast
    qed
  next
    assume "\<not> ?D" with neg show "on_RETURN_insert_comment H l_map s = Inr s" by blast
  qed
  from pos neg iff show ?thesis by blast
qed

theorem continuation_decision_witness:
  "on_RETURN_insert_comment idle_host lang_py (sample_editor, [])
     = Inr (issue idle_host LineEnd
             (issue idle_host (ReplaceLine 2 (''    '' @ ''#'' @ '' '' @ ''foo''))
                (sample_editor, [])))
   \<and> on_RETURN_insert_comment idle_host lang_py (sample_editor, []) \<noteq> Inr (sample_editor, [])"
proof -
  let ?s = "(sample_editor, [])"
  have h1: "(2::int) = lineFromPosition (fst ?s) (getCurrentPos (fst ?s))"
    by (simp add: sample_editor_def sample_line_num)
  have h2: "sample_getLine 1 = getLine (fst ?s) (2 - 1)"
    by (simp add: sample_editor_def)
  have h3: "sample_getLine 0 = getLine (fst ?s) (2 - 2)"
    by (simp add: sample_editor_def)
  have h4: "''foo'' = strip (getLine (fst ?s) 2)"
    by (simp add: sample_editor_def sample_trailing)
  have h5: "''#'' = comment_str lang_py" by (simp add: lang_py_def)
  note T = continuation_decision[OF h1 h2 h3 h4 h5, of idle_host]
  have d: "is_comment ''#'' (sample_getLine 1)
             \<and> (is_comment ''#'' (sample_getLine 0) \<or> ''foo'' \<noteq> [])"
    using sample_p_comment by simp
  from T d obtain i where i: "str_index (sample_getLine 1) ''#'' = Some i"
    "take i (sample_getLine 1) = takeWhile is_space (sample_getLine 1)"
    "on_RETURN_insert_comment idle_host lang_py ?s =
       Inr (issue idle_host LineEnd
             (issue idle_host (ReplaceLine 2
                (take i (sample_getLine 1) @ ''#'' @ '' '' @ ''foo'')) ?s))"
    by blast
  from T d have n: "on_RETURN_insert_comment idle_host lang_py ?s \<noteq> Inr ?s" by blast
  from i(2) have "take i (sample_getLine 1) = ''    ''"
    by (simp only: sample_indent)
  with i(3) n show ?thesis by (simp only: simp_thms)
qed

text \<open>
  C6, as amended. When the continuation inserter writes, the replacement line is the line
  above up to and including its marker (the marker once, not twice), followed by a single
  space and the stripped content of the new line; the commands issued are this replacement
  and then the move of the caret to the line end.
\<close>

theorem continuation_line_written:
  assumes "continuation_accepts l_map (fst s)"
    and "line_num = lineFromPosition (fst s) (getCurrentPos (fst s))"
    and "p_line = getLine (fst s) (line_num - 1)"
    and "trailing = strip (getLine (fst s) line_num)"
    and "marker = comment_str l_map"
  shows "\<exists>i s'. str_index p_line marker = Some i
            \<and> on_RETURN_insert_comment H l_map s = Inr s'
            \<and> snd s' = snd s @ [ReplaceLine line_num (take i p_line @ marker @ '' '' @ trailing),
                                 LineEnd]
            \<and> take i p_line @ marker = take (i + length marker) p_line"
proof -
  from continuation_index[OF assms(1)] assms obtain i where
    i: "str_index p_line marker = Some i" by auto
  then have i': "str_index (getLine (fst s) (lineFromPosition (fst s)
        (getCurrentPos (fst s)) - 1)) (comment_str l_map) = Some i" using assms by simp
  from insert_comment_positive[OF assms(1) i', of H] assms
  have r: "on_RETURN_insert_comment H l_map s =
             Inr (issue H LineEnd
                   (issue H (ReplaceLine line_num (take i p_line @ marker @ '' '' @ trailing)) s))"
    by simp
  have "take i p_line @ marker = take (i + length marker) p_line"
    using str_index_take[OF i] by simp
  with i r show ?thesis by (auto simp: issue_log)
qed

theorem continuation_line_written_witness:
  "\<exists>i s'. str_index (sample_getLine 1) ''#'' = Some i
      \<and> on_RETURN_insert_comment idle_host lang_py (sample_editor, []) = Inr s'
      \<and> snd s' = snd (sample_editor, [])
           @ [ReplaceLine 2 (take i (sample_getLine 1) @ ''#'' @ '' '' @ ''foo''), LineEnd]
      \<and> take i (sample_getLine 1) @ ''#'' = take (i + length ''#'') (sample_getLine 1)"
proof -
  let ?s = "(sample_editor, [])"
  have h0: "continuation_accepts lang_py (fst ?s)"
    by (simp add: continuation_accepts_def Let_def sample_editor_def lang_py_def
        sample_line_num sample_p_comment sample_trailing)
  have h1: "(2::int) = lineFromPosition (fst ?s) (getCurrentPos (fst ?s))"
    by (simp add: sample_editor_def sample_line_num)
  have h2: "sample_getLine 1 = getLine (fst ?s) (2 - 1)"
    by (simp add: sample_editor_def)
  have h4: "''foo'' = strip (getLine (fst ?s) 2)"
    by (simp add: sample_editor_def sample_trailing)
  have h5: "''#'' = comment_str lang_py" by (simp add: lang_py_def)
  from continuation_line_written[OF h0 h1 h2 h4 h5, of idle_host] show ?thesis .
qed

text \<open>
  C6, as stated, doubles the marker. On the sample buffer the line above is
  \<open>    # two\<close> and the new line \<open>foo\<close>: the inserter writes \<open>    # foo\<close>,
  where the wording of the claim gives \<open>    ## foo\<close>.
\<close>

theorem continuation_line_counterexample:
  "on_RETURN_insert_comment idle_host lang_py (sample_editor, [])
     = Inr (sample_editor, [ReplaceLine 2 ''    # foo'', LineEnd])
   \<and> spec_replacement_line (sample_getLine 1) (comment_str lang_py) (strip (sample_getLine 2))
       = Some ''    ## foo''
   \<and> ''    # foo'' \<noteq> ''    ## foo''"
proof -
  have "spec_replacement_line (sample_getLine 1) (comment_str lang_py) (strip (sample_getLine 2))
       = Some ''    ## foo''" by code_simp
  with sample_continuation show ?thesis by simp
qed

text \<open>
  C7. When the lower-cased extension of the active file is not a key of the language map,
  the dispatcher returns the state it was given for every character and every buffer: no
  command is issued and no exception is raised.
\<close>

theorem unsupported_file_noop:
  assumes "lower (splitext_ext (getCurrentFilename (fst s))) \<notin> dom lang_map"
  shows "on_CHARADDED_insert H ch s = Inr s"
  using assms by (auto simp: on_CHARADDED_insert_def Let_def dom_def)

lemma md_extension: "lower (splitext_ext ''notes.md'') = ''.md''"
  by code_simp

lemma md_unsupported: "''.md'' \<notin> dom lang_map"
  by (simp add: lang_map_def dom_def)

theorem unsupported_file_noop_witness:
  "on_CHARADDED_insert idle_host 10 (sample_editor\<lparr>getCurrentFilename := ''notes.md''\<rparr>, [])
     = Inr (sample_editor\<lparr>getCurrentFilename := ''notes.md''\<rparr>, [])"
proof -
  have h: "lower (splitext_ext (getCurrentFilename
             (fst (sample_editor\<lparr>getCurrentFilename := ''notes.md''\<rparr>, []))))
           \<notin> dom lang_map"
    by (simp add: md_extension md_unsupported)
  from unsupported_file_noop[OF h] show ?thesis .
qed

lemma wrap_ch_irrelevant:
  "ch \<noteq> 32 \<Longrightarrow> ch' \<noteq> 32 \<Longrightarrow>
   on_CHARADDED_wrap H l_map ch ty s = on_CHARADDED_wrap H l_map ch' ty s"
  by (simp add: on_CHARADDED_wrap_def)

lemma wrap_dispatch_ch_irrelevant:
  "ch \<noteq> 32 \<Longrightarrow> ch' \<noteq> 32 \<Longrightarrow> wrap_dispatch H ext ch s = wrap_dispatch H ext ch' s"
  by (auto simp: wrap_dispatch_def wrap_ch_irrelevant[of ch ch'] split: sum.splits)

text \<open>
  C9. For a supported file, character code 10 goes to the continuation inserter and every
  other code to the calls of the re-wrapper. Code 13 is one of these: the dispatcher treats
  it as it treats any character other than the line feed and the space.
\<close>

theorem only_line_feed_continues:
  assumes "lang_map (lower (splitext_ext (getCurrentFilename (fst s)))) = Some l_map"
  shows "on_CHARADDED_insert H 10 s = on_RETURN_insert_comment H l_map s
       \<and> (ch \<noteq> 10 \<longrightarrow>
            on_CHARADDED_insert H ch s
              = wrap_dispatch H (lower (splitext_ext (getCurrentFilename (fst s)))) ch s)
       \<and> on_CHARADDED_insert H 13 s
            = wrap_dispatch H (lower (splitext_ext (getCurrentFilename (fst s)))) 13 s
       \<and> (ch \<noteq> 10 \<and> ch \<noteq> 32 \<longrightarrow> on_CHARADDED_insert H ch s = on_CHARADDED_insert H 13 s)"
  using assms wrap_dispatch_ch_irrelevant[of ch 13]
  by (simp add: on_CHARADDED_insert_def Let_def)

lemma py_extension: "lower (splitext_ext ''notes.py'') = ''.py''"
  by code_simp

lemma py_supported: "lang_map ''.py'' = Some lang_py"
  by (simp add: lang_map_def)

lemma sample_wrap_dispatch:
  "wrap_dispatch idle_host ''.py'' 13 (sample_editor, []) = Inr (sample_editor, [])"
  by (simp add: wrap_dispatch_def on_CHARADDED_wrap_def Let_def sample_editor_def
      sample_line_num sample_getLineEndPosition_def)

theorem only_line_feed_continues_witness:
  "on_CHARADDED_insert idle_host 10 (sample_editor, [])
     = Inr (sample_editor, [ReplaceLine 2 ''    # foo'', LineEnd])
   \<and> on_CHARADDED_insert idle_host 13 (sample_editor, []) = Inr (sample_editor, [])
   \<and> on_CHARADDED_insert idle_host 111 (sample_editor, [])
       = on_CHARADDED_insert idle_host 13 (sample_editor, [])"
proof -
  have e: "lower (splitext_ext (getCurrentFilename (fst (sample_editor, [])))) = ''.py''"
    by (simp add: sample_editor_def py_extension)
  have h: "lang_map (lower (splitext_ext (getCurrentFilename (fst (sample_editor, [])))))
             = Some lang_py"
    by (simp only: e py_supported)
  note T = only_line_feed_continues[OF h, of idle_host 111]
  from T have a: "on_CHARADDED_insert idle_host 10 (sample_editor, [])
      = on_RETURN_insert_comment idle_host lang_py (sample_editor, [])" by blast
  from T have b: "on_CHARADDED_insert idle_host 13 (sample_editor, [])
      = wrap_dispatch idle_host ''.py'' 13 (sample_editor, [])" by (simp only: e)
  have n: "(111::int) \<noteq> 10 \<and> (111::int) \<noteq> 32" by simp
  from T n have c: "on_CHARADDED_insert idle_host 111 (sample_editor, [])
      = on_CHARADDED_insert idle_host 13 (sample_editor, [])" by blast
  from a b c show ?thesis by (simp only: sample_continuation sample_wrap_dispatch simp_thms)
qed

lemma wrap_block_reject:
  assumes "int (length (rstrip line)) \<le> lim \<or> split_ws line = []
             \<or> wrap_words st (split_ws line) = None"
  shows "wrap_block lim st line = Inr None \<or> (\<exists>e. wrap_block lim st line = Inl e)"
proof (cases "int (length (rstrip line)) \<le> lim")
  case True
  then show ?thesis by (simp add: wrap_block_def)
next
  case long: False
  show ?thesis
  proof (cases "split_ws line = []")
    case True
    with long show ?thesis by (simp add: wrap_block_def leading_white_space_def)
  next
    case False
    then have "leading_white_space line (split_ws line) = Inr (takeWhile is_space line)"
      using leading_white_space_ok split_ws_Nil_iff by blast
    moreover from False assms long have "wrap_words st (split_ws line) = None" by simp
    ultimately show ?thesis using long False by (simp add: wrap_block_def)
  qed
qed

lemma wrap_block_pieces:
  assumes "wrap_block lim st line = Inr (Some nw)"
  shows "(\<exists>text. join_pieces nw = Some text) \<and> (\<exists>lw. last nw = Some lw)"
proof -
  from assms obtain ls w it where
    nw: "nw = wrap_loop lim ls it [Some ls, Some w] (int (length ls) + int (length w)) 1"
    by (auto simp: wrap_block_def split: if_splits sum.splits option.splits list.splits)
  have j: "\<exists>text. join_pieces nw = Some text" unfolding nw using wrap_loop_text by blast
  let ?ys = "[ls, w] @ cont_pieces (fst (pack lim (int (length ls))
                 (int (length ls) + int (length w)) it))
             @ concat (map (line_pieces ls) (snd (pack lim (int (length ls))
                 (int (length ls) + int (length w)) it)))"
  have m: "nw = map Some ?ys"
    unfolding nw
    using wrap_loop_pack[of 1 lim ls it "[Some ls, Some w]" "int (length ls) + int (length w)"]
    by simp
  have "?ys \<noteq> []" by simp
  then have "last (map Some ?ys) = Some (last ?ys)" by (rule last_map)
  with m have "last nw = Some (last ?ys)" by simp
  with j show ?thesis by blast
qed

lemma wrap_raises_unchanged:
  assumes "on_CHARADDED_wrap H l_map ch ty s = Inl (e, s')"
  shows "s' = s"
proof -
  let ?pos = "getCurrentPos (fst s)"
  let ?line = "getLine (fst s) (lineFromPosition (fst s) ?pos)"
  show ?thesis
  proof (cases "wrap_context l_map ty (fst s) ?pos ?line")
    case (Inl x)
    with assms show ?thesis by (auto simp: on_CHARADDED_wrap_def Let_def split: if_splits)
  next
    case (Inr c)
    show ?thesis
    proof (cases c)
      case None
      with Inr assms show ?thesis by (auto simp: on_CHARADDED_wrap_def Let_def split: if_splits)
    next
      case (Some ls)
      obtain lim st where ls: "ls = (lim, st)" by (cases ls)
      show ?thesis
      proof (cases "wrap_block lim st ?line")
        case (Inl x)
        with Inr Some ls assms show ?thesis
          by (auto simp: on_CHARADDED_wrap_def Let_def split: if_splits)
      next
        case b: (Inr r)
        show ?thesis
        proof (cases r)
          case None
          with b Inr Some ls assms show ?thesis
            by (auto simp: on_CHARADDED_wrap_def Let_def split: if_splits)
        next
          case nw: (Some nw)
          from wrap_block_pieces[of lim st ?line nw] b nw obtain t lw where
            "join_pieces nw = Some t" "last nw = Some lw" by auto
          with b nw Inr Some ls assms show ?thesis
            by (auto simp: on_CHARADDED_wrap_def Let_def split: if_splits)
        qed
      qed
    qed
  qed
qed

lemma wrap_reject_unchanged:
  assumes "\<not> wrap_accepts l_map ch ty (fst s)"
  shows "on_CHARADDED_wrap H l_map ch ty s = Inr s
       \<or> (\<exists>e. on_CHARADDED_wrap H l_map ch ty s = Inl (e, s))"
proof -
  let ?pos = "getCurrentPos (fst s)"
  let ?line = "getLine (fst s) (lineFromPosition (fst s) ?pos)"
  show ?thesis
  proof (cases "?pos \<noteq> getLineEndPosition (fst s) (lineFromPosition (fst s) ?pos) \<and> ch \<noteq> 32")
    case True
    then show ?thesis by (simp add: on_CHARADDED_wrap_def Let_def)
  next
    case caret: False
    show ?thesis
    proof (cases "wrap_context l_map ty (fst s) ?pos ?line")
      case (Inl x)
      with caret show ?thesis by (simp add: on_CHARADDED_wrap_def Let_def)
    next
      case (Inr c)
      show ?thesis
      proof (cases c)
        case None
        with Inr caret show ?thesis by (simp add: on_CHARADDED_wrap_def Let_def)
      next
        case (Some ls)
        obtain lim st where ls: "ls = (lim, st)" by (cases ls)
        from assms caret Inr Some ls have
          "int (length (rstrip ?line)) \<le> lim \<or> split_ws ?line = []
             \<or> wrap_words st (split_ws ?line) = None"
          by (auto simp: wrap_accepts_def Let_def)
        from wrap_block_reject[OF this]
        show ?thesis using caret Inr Some ls
          by (auto simp: on_CHARADDED_wrap_def Let_def)
      qed
    qed
  qed
qed

lemma insert_raises_unchanged:
  "on_RETURN_insert_comment H l_map s = Inl (e, s') \<Longrightarrow> s' = s"
  by (auto simp: on_RETURN_insert_comment_def Let_def split: if_splits option.splits)

lemma wrap_accepts_block:
  assumes "lim < int (length (rstrip line))" "split_ws line \<noteq> []"
    "wrap_words st (split_ws line) \<noteq> None"
  shows "\<exists>nw. wrap_block lim st line = Inr (Some nw)"
proof -
  have lw: "leading_white_space line (split_ws line) = Inr (takeWhile is_space line)"
    using assms(2) leading_white_space_ok split_ws_Nil_iff by blast
  from assms(3) obtain words where ww: "wrap_words st (split_ws line) = Some words" by auto
  then obtain w it where "words = w # it" using wrap_words_length[OF ww] by (cases words) auto
  with assms(1,2) lw ww show ?thesis by (simp add: wrap_block_def)
qed

lemma wrap_accepts_writes:
  assumes "wrap_accepts l_map ch ty (fst s)"
  shows "\<exists>lim st t s' k.
           wrap_context l_map ty (fst s) (getCurrentPos (fst s))
             (getLine (fst s) (lineFromPosition (fst s) (getCurrentPos (fst s))))
             = Inr (Some (lim, st))
         \<and> wrap_text lim st (getLine (fst s) (lineFromPosition (fst s) (getCurrentPos (fst s))))
             = Some t
         \<and> on_CHARADDED_wrap H l_map ch ty s = Inr s'
         \<and> snd s' = snd s @ [ReplaceLine (lineFromPosition (fst s) (getCurrentPos (fst s))) [],
                               AddText t, LineEnd] @ replicate k CharLeft"
proof -
  let ?pos = "getCurrentPos (fst s)"
  let ?ln = "lineFromPosition (fst s) ?pos"
  let ?line = "getLine (fst s) ?ln"
  from assms have caret: "?pos = getLineEndPosition (fst s) ?ln \<or> ch = 32"
    by (simp add: wrap_accepts_def Let_def)
  from assms obtain lim st where
    ctx: "wrap_context l_map ty (fst s) ?pos ?line = Inr (Some (lim, st))"
    and acc: "lim < int (length (rstrip ?line))" "split_ws ?line \<noteq> []"
      "wrap_words st (split_ws ?line) \<noteq> None"
    by (auto simp: wrap_accepts_def Let_def split: sum.splits option.splits)
  from wrap_accepts_block[OF acc] obtain nw where nw: "wrap_block lim st ?line = Inr (Some nw)"
    by blast
  from wrap_block_pieces[OF nw] obtain t lw where
    t: "join_pieces nw = Some t" and lw: "last nw = Some lw" by blast
  have wt: "wrap_text lim st ?line = Some t" using nw t by (simp add: wrap_text_def)
  let ?s2 = "issue H LineEnd (issue H (AddText t) (issue H (ReplaceLine ?ln []) s))"
  have l2: "snd ?s2 = snd s @ [ReplaceLine ?ln [], AddText t, LineEnd]"
    by (simp add: issue_log)
  have "on_CHARADDED_wrap H l_map ch ty s = Inr ?s2
        \<or> on_CHARADDED_wrap H l_map ch ty s
            = Inr (issue H CharLeft (issue H CharLeft (issue H CharLeft ?s2)))"
    using caret ctx nw t lw by (auto simp: on_CHARADDED_wrap_def Let_def)
  then show ?thesis
  proof
    assume "on_CHARADDED_wrap H l_map ch ty s = Inr ?s2"
    with ctx wt l2 show ?thesis
      by (intro exI[of _ lim] exI[of _ st] exI[of _ t] exI[of _ ?s2] exI[of _ 0]) simp
  next
    assume "on_CHARADDED_wrap H l_map ch ty s
            = Inr (issue H CharLeft (issue H CharLeft (issue H CharLeft ?s2)))"
    with ctx wt l2 show ?thesis
      by (intro exI[of _ lim] exI[of _ st] exI[of _ t]
          exI[of _ "issue H CharLeft (issue H CharLeft (issue H CharLeft ?s2))"] exI[of _ 3])
        (simp add: issue_log numeral_3_eq_3)
  qed
qed

text \<open>
  C8. When one of the re-wrapper's conditions fails, the re-wrapper leaves the state as it
  was, whether it returns or raises; when the continuation test fails, the inserter
  returns the state as it was. Whenever either handler raises, it does so in the state it
  was given: every check and every raise comes before the first command.
\<close>

theorem handlers_check_before_writing:
  "(\<not> wrap_accepts l_map ch ty (fst s) \<longrightarrow>
      on_CHARADDED_wrap H l_map ch ty s = Inr s
      \<or> (\<exists>e. on_CHARADDED_wrap H l_map ch ty s = Inl (e, s)))
   \<and> (\<not> continuation_accepts l_map (fst s) \<longrightarrow> on_RETURN_insert_comment H l_map s = Inr s)
   \<and> (\<forall>e s'. on_CHARADDED_wrap H l_map ch ty s = Inl (e, s') \<longrightarrow> s' = s)
   \<and> (\<forall>e s'. on_RETURN_insert_comment H l_map s = Inl (e, s') \<longrightarrow> s' = s)"
  using wrap_reject_unchanged insert_comment_negative wrap_raises_unchanged
    insert_raises_unchanged by blast

lemma sample_wrap_rejects: "\<not> wrap_accepts lang_py 32 ''comment'' (fst (sample_editor, []))"
  by (simp add: wrap_accepts_def Let_def sample_editor_def sample_line_num wrap_context_def
      lang_py_def is_comment_def lstrip_def startswith_def sample_getLine_def is_space_def)

lemma sample_continuation_rejects:
  "\<not> continuation_accepts lang_py (fst (sample_editor\<lparr>getCurrentPos := 16\<rparr>, []))"
  by (simp add: continuation_accepts_def Let_def sample_editor_def sample_lineFromPosition_def
      lang_py_def sample_pp_plain)

theorem handlers_check_before_writing_witness:
  "(on_CHARADDED_wrap idle_host lang_py 32 ''comment'' (sample_editor, [])
      = Inr (sample_editor, [])
    \<or> (\<exists>e. on_CHARADDED_wrap idle_host lang_py 32 ''comment'' (sample_editor, [])
            = Inl (e, (sample_editor, []))))
   \<and> on_RETURN_insert_comment idle_host lang_py (sample_editor\<lparr>getCurrentPos := 16\<rparr>, [])
       = Inr (sample_editor\<lparr>getCurrentPos := 16\<rparr>, [])"
proof -
  from handlers_check_before_writing[of lang_py 32 "''comment''" "(sample_editor, [])" idle_host]
    sample_wrap_rejects
  have a: "on_CHARADDED_wrap idle_host lang_py 32 ''comment'' (sample_editor, [])
      = Inr (sample_editor, [])
    \<or> (\<exists>e. on_CHARADDED_wrap idle_host lang_py 32 ''comment'' (sample_editor, [])
            = Inl (e, (sample_editor, [])))" by blast
  from handlers_check_before_writing[of lang_py 10 "''comment''"
      "(sample_editor\<lparr>getCurrentPos := 16\<rparr>, [])" idle_host]
    sample_continuation_rejects
  have b: "on_RETURN_insert_comment idle_host lang_py (sample_editor\<lparr>getCurrentPos := 16\<rparr>, [])
       = Inr (sample_editor\<lparr>getCurrentPos := 16\<rparr>, [])" by blast
  from a b show ?thesis by blast
qed

end
